theory Spec2Isabelle
  imports Main "HOL-Library.AList"
begin

section \<open>JavaScript values carried by client messages\<close>

text \<open>
  The server receives operations as JSON objects and never validates their shape beyond
  a truthiness test, so the model keeps the values as JavaScript has them. Numbers are
  restricted to integers. An object is the list of its own properties; a property read
  returns the first entry for the key.
\<close>

datatype jsval =
    JUndefined
  | JNull
  | JBool bool
  | JNum int
  | JStr string
  | JArr "jsval list"
  | JObj "(string \<times> jsval) list"

text \<open>JavaScript truthiness, as used by \<^verbatim>\<open>if (x)\<close>, \<^verbatim>\<open>x || y\<close> and \<^verbatim>\<open>x && y\<close>.\<close>

fun truthy :: "jsval \<Rightarrow> bool" where
  "truthy JUndefined = False"
| "truthy JNull = False"
| "truthy (JBool b) = b"
| "truthy (JNum n) = (n \<noteq> 0)"
| "truthy (JStr s) = (s \<noteq> [])"
| "truthy (JArr xs) = True"
| "truthy (JObj kvs) = True"

text \<open>
  The property read \<^verbatim>\<open>v.k\<close> for the keys the server reads (\<^verbatim>\<open>type\<close>,
  \<^verbatim>\<open>payload\<close>, \<^verbatim>\<open>targetOpID\<close>): an object yields its property or
  \<^verbatim>\<open>undefined\<close>; booleans, numbers, strings and arrays have no such property. The
  server reads properties only of objects and of truthy values, so the equations for
  \<^verbatim>\<open>undefined\<close> and \<^verbatim>\<open>null\<close> are never used.
\<close>

fun getProp :: "jsval \<Rightarrow> string \<Rightarrow> jsval" where
  "getProp (JObj kvs) k = (case map_of kvs k of None \<Rightarrow> JUndefined | Some v \<Rightarrow> v)"
| "getProp v k = JUndefined"

section \<open>Operation identifiers\<close>

text \<open>
  \<^verbatim>\<open>String(seq)\<close> for a non-negative integer: its decimal digits. The sequence counter
  is a JavaScript number; the model uses natural numbers, which agree with it below
  \<open>2^53\<close>.
\<close>

fun toString :: "nat \<Rightarrow> string" where
  "toString n =
     (if n < 10 then [''0123456789'' ! n]
      else toString (n div 10) @ [''0123456789'' ! (n mod 10)])"

declare toString.simps [simp del]

text \<open>\<^verbatim>\<open>s.padStart(6, '0')\<close>\<close>

definition padStart :: "string \<Rightarrow> string" where
  "padStart s = replicate (6 - length s) (CHR ''0'') @ s"

text \<open>
  Room ids are the keys of the \<^verbatim>\<open>rooms\<close> map. \<^verbatim>\<open>index.js\<close> passes
  \<^verbatim>\<open>op.roomId || 'room1'\<close> on without looking at its type, so a key is whatever truthy
  value the client sent: the model has strings, integer numbers and booleans. The map
  compares keys by SameValueZero, under which the number \<open>1\<close> and the string \<open>''1''\<close> are
  different keys, as they are different values of this type. (An object or an array used
  as a key is compared by identity; such keys are outside the model.)
\<close>

datatype roomId = RoomStr string | RoomNum int | RoomBool bool

text \<open>
  The template literal \<^verbatim>\<open>`${roomId}`\<close>: a string is itself, a number its decimal
  notation (which JavaScript uses for integers below \<open>10^21\<close> in absolute value), a boolean
  its name.
\<close>

fun template :: "roomId \<Rightarrow> string" where
  "template (RoomStr s) = s"
| "template (RoomNum n) = (if n < 0 then ''-'' @ toString (nat (- n)) else toString (nat n))"
| "template (RoomBool b) = (if b then ''true'' else ''false'')"

text \<open>Socket ids are the strings \<^verbatim>\<open>socket.id\<close>.\<close>

type_synonym socketId = string

text \<open>\<^verbatim>\<open>`${roomId}::${String(seq).padStart(6, '0')}`\<close>\<close>

definition mk_opID :: "roomId \<Rightarrow> nat \<Rightarrow> string" where
  "mk_opID roomId n = template roomId @ ''::'' @ padStart (toString n)"

section \<open>Rooms\<close>

record clientInfo =
  info_clientId :: socketId
  username :: string
  color :: string

text \<open>A stamped operation, as \<^verbatim>\<open>appendOp\<close> builds it.\<close>

record op =
  seq :: nat
  opID :: string
  clientId :: socketId
  type :: jsval
  payload :: jsval
  timestamp :: nat
  active :: bool

text \<open>
  A room is \<^verbatim>\<open>{ clients, ops, seq, opMap }\<close>; its counter \<^verbatim>\<open>seq\<close> is the field
  \<open>room_seq\<close>, since \<open>seq\<close> names the field of an operation. The JavaScript maps keep
  insertion order, so they are association lists: \<open>map_of\<close> is \<^verbatim>\<open>get\<close>,
  \<open>AList.update\<close> is \<^verbatim>\<open>set\<close> (an existing key keeps its place, a new one goes to the
  end) and \<open>AList.delete\<close> is \<^verbatim>\<open>delete\<close>.

  \<^verbatim>\<open>ops\<close> and \<^verbatim>\<open>opMap\<close> hold references to the same operation objects, and the
  undo and redo branches mutate an object through either. Every operation object is
  pushed onto \<^verbatim>\<open>ops\<close> when it is created and nothing is ever removed, so the position
  in \<^verbatim>\<open>ops\<close> serves as the object's address: \<open>ops\<close> is the store, and \<open>opMap\<close> maps an
  \<open>opID\<close> to an address.
\<close>

record room =
  clients :: "(socketId \<times> clientInfo) list"
  ops :: "op list"
  room_seq :: nat
  opMap :: "(string \<times> nat) list"

type_synonym manager = "(roomId \<times> room) list"

definition newManager :: manager where
  "newManager = []"

definition newRoom :: room where
  "newRoom = \<lparr>clients = [], ops = [], room_seq = 0, opMap = []\<rparr>"

text \<open>
  \<^verbatim>\<open>_ensure(roomId)\<close>. Every method that reads \<^verbatim>\<open>this.rooms.get(roomId)\<close> calls it
  first, so the room read is always there: \<open>the (map_of (ensure rooms roomId) roomId)\<close>.
\<close>

definition ensure :: "manager \<Rightarrow> roomId \<Rightarrow> manager" where
  "ensure rooms roomId =
     (if map_of rooms roomId = None then AList.update roomId newRoom rooms else rooms)"

text \<open>
  \<^verbatim>\<open>addClient(roomId, socketId, username = 'Anon', color = '#000')\<close>; an omitted
  argument is \<open>None\<close>.
\<close>

definition addClient ::
  "manager \<Rightarrow> roomId \<Rightarrow> socketId \<Rightarrow> string option \<Rightarrow> string option \<Rightarrow> manager \<times> clientInfo"
where
  "addClient rooms roomId socketId username_arg color_arg =
     (let rooms1 = ensure rooms roomId;
          room = the (map_of rooms1 roomId);
          info = \<lparr>info_clientId = socketId,
                  username = (case username_arg of None \<Rightarrow> ''Anon'' | Some u \<Rightarrow> u),
                  color = (case color_arg of None \<Rightarrow> ''#000'' | Some c \<Rightarrow> c)\<rparr>
      in (AList.update roomId (room\<lparr>clients := AList.update socketId info (clients room)\<rparr>) rooms1,
          info))"

text \<open>
  \<^verbatim>\<open>removeClientBySocket(socketId)\<close>: the loop over \<^verbatim>\<open>this.rooms.entries()\<close>, in
  insertion order. \<open>visited\<close> holds the rooms already passed, \<open>roomsLeft\<close> the ids
  pushed so far. \<^verbatim>\<open>Map.delete\<close> returns true exactly when the key was present.
\<close>

fun removeLoop ::
  "(roomId \<times> room) list \<Rightarrow> socketId \<Rightarrow> manager \<Rightarrow> roomId list \<Rightarrow> manager \<times> roomId list"
where
  "removeLoop [] socketId visited roomsLeft = (visited, roomsLeft)"
| "removeLoop ((roomId, room) # rest) socketId visited roomsLeft =
     (if map_of (clients room) socketId \<noteq> None
      then removeLoop rest socketId
             (visited @ [(roomId, room\<lparr>clients := AList.delete socketId (clients room)\<rparr>)])
             (roomsLeft @ [roomId])
      else removeLoop rest socketId (visited @ [(roomId, room)]) roomsLeft)"

definition removeClientBySocket :: "manager \<Rightarrow> socketId \<Rightarrow> manager \<times> roomId list" where
  "removeClientBySocket rooms socketId = removeLoop rooms socketId [] []"

text \<open>\<^verbatim>\<open>getClients(roomId)\<close>\<close>

definition getClients :: "manager \<Rightarrow> roomId \<Rightarrow> manager \<times> clientInfo list" where
  "getClients rooms roomId =
     (let rooms1 = ensure rooms roomId;
          room = the (map_of rooms1 roomId)
      in (rooms1, map snd (clients room)))"

text \<open>
  \<^verbatim>\<open>getHistory(roomId, limit = 500)\<close> returns
  \<^verbatim>\<open>room.ops.slice(Math.max(0, room.ops.length - limit))\<close>; an omitted limit is
  \<open>None\<close>.
\<close>

definition getHistory :: "manager \<Rightarrow> roomId \<Rightarrow> int option \<Rightarrow> manager \<times> op list" where
  "getHistory rooms roomId limit_arg =
     (let rooms1 = ensure rooms roomId;
          room = the (map_of rooms1 roomId);
          limit = (case limit_arg of None \<Rightarrow> 500 | Some l \<Rightarrow> l)
      in (rooms1, drop (nat (max 0 (int (length (ops room)) - limit))) (ops room)))"

section \<open>Appending an operation\<close>

text \<open>
  The stamped object. \<open>opRaw\<close> is the raw operation, an object given by its
  properties; an omitted argument is the empty object \<^verbatim>\<open>{}\<close>, the empty list. The
  \<^verbatim>\<open>op\<close> handler of \<^verbatim>\<open>index.js\<close> passes a message on only if it is truthy and has a
  truthy \<^verbatim>\<open>type\<close>, which only an object has. \<open>now\<close> is the value \<^verbatim>\<open>Date.now()\<close>
  returns. No statement of \<^verbatim>\<open>appendOp\<close> can throw on such an argument, so the model
  has no error value.
\<close>

text \<open>\<^verbatim>\<open>opRaw.payload || opRaw.payload === null ? opRaw.payload : opRaw\<close>\<close>

definition rawPayload :: "(string \<times> jsval) list \<Rightarrow> jsval" where
  "rawPayload opRaw =
     (let p = getProp (JObj opRaw) ''payload''
      in if truthy p \<or> p = JNull then p else JObj opRaw)"

definition stamp :: "roomId \<Rightarrow> nat \<Rightarrow> (string \<times> jsval) list \<Rightarrow> socketId \<Rightarrow> nat \<Rightarrow> op" where
  "stamp roomId n opRaw socketId now =
     \<lparr>seq = n,
      opID = mk_opID roomId n,
      clientId = socketId,
      type = getProp (JObj opRaw) ''type'',
      payload = rawPayload opRaw,
      timestamp = now,
      active = True\<rparr>"

text \<open>\<^verbatim>\<open>stamped.payload && stamped.payload.targetOpID\<close>\<close>

definition targetOpID_of :: "jsval \<Rightarrow> jsval" where
  "targetOpID_of p = (if truthy p then getProp p ''targetOpID'' else p)"

text \<open>\<^verbatim>\<open>room.opMap.get(targetOpID)\<close>: the keys of \<^verbatim>\<open>opMap\<close> are strings.\<close>

definition opMap_get :: "(string \<times> nat) list \<Rightarrow> jsval \<Rightarrow> nat option" where
  "opMap_get m k = (case k of JStr s \<Rightarrow> map_of m s | _ \<Rightarrow> None)"

text \<open>\<^verbatim>\<open>if (target) target.active = b\<close>, on the object at the address found.\<close>

definition setActive :: "nat option \<Rightarrow> bool \<Rightarrow> op list \<Rightarrow> op list" where
  "setActive target b log =
     (case target of None \<Rightarrow> log | Some i \<Rightarrow> log[i := (log ! i)\<lparr>active := b\<rparr>])"

text \<open>
  The backward scan \<^verbatim>\<open>for (let i = room.ops.length - 1; i >= 0; i--)\<close>, stopping at
  the first operation with \<^verbatim>\<open>o.type === 'stroke' && o.active\<close>. \<open>scan log n\<close> looks
  at the positions below \<open>n\<close>, highest first, and returns the position found.
\<close>

fun scan :: "op list \<Rightarrow> nat \<Rightarrow> nat option" where
  "scan log 0 = None"
| "scan log (Suc i) =
     (if type (log ! i) = JStr ''stroke'' \<and> active (log ! i) then Some i else scan log i)"

text \<open>
  The branch on \<^verbatim>\<open>stamped.type\<close>: it returns the log after the flag update and the
  stamped operation, whose payload the implicit undo replaces by
  \<^verbatim>\<open>{ targetOpID: o.opID }\<close>.
\<close>

definition interpretOp :: "room \<Rightarrow> op \<Rightarrow> op list \<times> op" where
  "interpretOp room stamped =
     (if type stamped = JStr ''undo'' then
        (let targetOpID = targetOpID_of (payload stamped) in
         if truthy targetOpID
         then (setActive (opMap_get (opMap room) targetOpID) False (ops room), stamped)
         else (case scan (ops room) (length (ops room)) of
                 None \<Rightarrow> (ops room, stamped)
               | Some i \<Rightarrow>
                   ((ops room)[i := (ops room ! i)\<lparr>active := False\<rparr>],
                    stamped\<lparr>payload := JObj [(''targetOpID'', JStr (opID (ops room ! i)))]\<rparr>)))
      else if type stamped = JStr ''redo'' then
        (let targetOpID = targetOpID_of (payload stamped) in
         if truthy targetOpID
         then (setActive (opMap_get (opMap room) targetOpID) True (ops room), stamped)
         else (ops room, stamped))
      else (ops room, stamped))"

text \<open>
  One call of \<^verbatim>\<open>appendOp\<close> on the room object: the counter is incremented, the
  operation stamped and interpreted, then pushed onto \<^verbatim>\<open>ops\<close> and entered into
  \<^verbatim>\<open>opMap\<close> under its \<open>opID\<close>.
\<close>

definition appendRoom ::
  "roomId \<Rightarrow> room \<Rightarrow> (string \<times> jsval) list \<Rightarrow> socketId \<Rightarrow> nat \<Rightarrow> room \<times> op"
where
  "appendRoom roomId room opRaw socketId now =
     (let n = Suc (room_seq room);
          (log, stamped) = interpretOp room (stamp roomId n opRaw socketId now)
      in (room\<lparr>ops := log @ [stamped],
               room_seq := n,
               opMap := AList.update (opID stamped) (length log) (opMap room)\<rparr>,
          stamped))"

text \<open>
  \<^verbatim>\<open>appendOp(roomId, opRaw, socketId)\<close>: the room is created if need be, changed in
  place, and the stamped operation returned.
\<close>

definition appendOp ::
  "manager \<Rightarrow> roomId \<Rightarrow> (string \<times> jsval) list \<Rightarrow> socketId \<Rightarrow> nat \<Rightarrow> manager \<times> op"
where
  "appendOp rooms roomId opRaw socketId now =
     (let rooms1 = ensure rooms roomId;
          room = the (map_of rooms1 roomId);
          (room', stamped) = appendRoom roomId room opRaw socketId now
      in (AList.update roomId room' rooms1, stamped))"

section \<open>Call sequences\<close>

text \<open>
  The calls a \<^verbatim>\<open>RoomManager\<close> accepts. A state is reachable when a sequence of calls
  leads to it from the manager the constructor builds.
\<close>

datatype call =
    AddClient roomId socketId "string option" "string option"
  | RemoveClientBySocket socketId
  | GetClients roomId
  | GetHistory roomId "int option"
  | AppendOp roomId "(string \<times> jsval) list" socketId nat

fun exec :: "manager \<Rightarrow> call \<Rightarrow> manager" where
  "exec rooms (AddClient roomId socketId u c) = fst (addClient rooms roomId socketId u c)"
| "exec rooms (RemoveClientBySocket socketId) = fst (removeClientBySocket rooms socketId)"
| "exec rooms (GetClients roomId) = fst (getClients rooms roomId)"
| "exec rooms (GetHistory roomId limit_arg) = fst (getHistory rooms roomId limit_arg)"
| "exec rooms (AppendOp roomId opRaw socketId now) = fst (appendOp rooms roomId opRaw socketId now)"

definition run :: "call list \<Rightarrow> manager \<Rightarrow> manager" where
  "run calls rooms = foldl exec rooms calls"

text \<open>The log of a room; a room that does not exist yet has no log.\<close>

definition logOf :: "manager \<Rightarrow> roomId \<Rightarrow> op list" where
  "logOf rooms roomId = (case map_of rooms roomId of None \<Rightarrow> [] | Some room \<Rightarrow> ops room)"



text \<open>The room object \<^verbatim>\<open>this.rooms.get(roomId)\<close> yields once \<^verbatim>\<open>_ensure(roomId)\<close> has run.\<close>

definition roomOf :: "manager \<Rightarrow> roomId \<Rightarrow> room" where
  "roomOf rooms roomId = (case map_of rooms roomId of None \<Rightarrow> newRoom | Some room \<Rightarrow> room)"


text \<open>A stroke that is currently visible: what the backward scan looks for.\<close>

definition activeStroke :: "op \<Rightarrow> bool" where
  "activeStroke x = (type x = JStr ''stroke'' \<and> active x)"

text \<open>
  \<^verbatim>\<open>room.clients.delete(socketId)\<close> as a pair: the room afterwards, and the boolean
  it returns.
\<close>

definition dropClient :: "socketId \<Rightarrow> room \<Rightarrow> room" where
  "dropClient sid room = room\<lparr>clients := AList.delete sid (clients room)\<rparr>"

definition hasClient :: "socketId \<Rightarrow> room \<Rightarrow> bool" where
  "hasClient sid room = (map_of (clients room) sid \<noteq> None)"

text \<open>The number a string of decimal digits denotes; it reads \<^verbatim>\<open>String(seq)\<close> back.\<close>

definition digitValue :: "string \<Rightarrow> nat" where
  "digitValue s = foldl (\<lambda>a c. 10 * a + (of_char c - 48)) 0 s"

section \<open>The invariant of reachable states\<close>

text \<open>
  In a room of a reachable state the counter equals the length of the log, the operation
  at position \<open>i\<close> carries \<open>seq = i + 1\<close> and the \<open>opID\<close> made from it, every entry of
  \<open>opMap\<close> is the address of the operation that carries the entry's key as \<open>opID\<close>, and
  every operation of the log is found in \<open>opMap\<close> under its \<open>opID\<close>. Room ids are
  distinct map keys. Every call keeps the invariant, so it holds in every state that a
  sequence of calls reaches from the constructor's manager (\<open>wf_manager_run\<close> below);
  the theorems about reachable states assume it.
\<close>

definition wf_room :: "roomId \<Rightarrow> room \<Rightarrow> bool" where
  "wf_room r room =
     (room_seq room = length (ops room) \<and>
      map seq (ops room) = [1..<Suc (length (ops room))] \<and>
      map opID (ops room) = map (mk_opID r) [1..<Suc (length (ops room))] \<and>
      list_all (\<lambda>(t, i). i < length (ops room) \<and> opID (ops room ! i) = t) (opMap room) \<and>
      map (map_of (opMap room)) (map opID (ops room)) = map Some [0..<length (ops room)])"

definition wf_manager :: "manager \<Rightarrow> bool" where
  "wf_manager rooms = (distinct (map fst rooms) \<and> list_all (\<lambda>(r, room). wf_room r room) rooms)"

section \<open>Basic facts\<close>

lemma map_of_ensure: "map_of (ensure rooms r) = (map_of rooms)(r \<mapsto> roomOf rooms r)"
  by (auto simp: ensure_def roomOf_def update_conv' fun_eq_iff split: option.splits)

lemma roomOf_ensure [simp]: "roomOf (ensure rooms r) r' = roomOf rooms r'"
  by (simp add: roomOf_def map_of_ensure)

lemma logOf_roomOf: "logOf rooms r = ops (roomOf rooms r)"
  by (simp add: logOf_def roomOf_def newRoom_def split: option.splits)

lemma roomOf_update: "roomOf (AList.update r room rooms) r' = (if r' = r then room else roomOf rooms r')"
  by (simp add: roomOf_def update_conv')

lemma appendOp_eq:
  "appendOp rooms r opRaw sid now =
     (AList.update r (fst (appendRoom r (roomOf rooms r) opRaw sid now)) (ensure rooms r),
      snd (appendRoom r (roomOf rooms r) opRaw sid now))"
  by (simp add: appendOp_def Let_def map_of_ensure split: prod.splits)

lemma roomOf_appendOp:
  "roomOf (fst (appendOp rooms r opRaw sid now)) r' =
     (if r' = r then fst (appendRoom r (roomOf rooms r) opRaw sid now) else roomOf rooms r')"
  by (simp add: appendOp_eq roomOf_update)

lemma appendRoom_eq:
  "appendRoom r room opRaw sid now =
     (let st = stamp r (Suc (room_seq room)) opRaw sid now;
          log = fst (interpretOp room st); stamped = snd (interpretOp room st)
      in (room\<lparr>ops := log @ [stamped], room_seq := Suc (room_seq room),
               opMap := AList.update (opID stamped) (length log) (opMap room)\<rparr>, stamped))"
  by (simp add: appendRoom_def Let_def split: prod.splits)


subsection \<open>The backward scan\<close>

lemma scan_None: "scan log n = None \<longleftrightarrow> (\<forall>i<n. \<not> activeStroke (log ! i))"
  by (induction n) (auto simp: activeStroke_def less_Suc_eq)

lemma scan_Some:
  "scan log n = Some i \<Longrightarrow> i < n \<and> activeStroke (log ! i) \<and> (\<forall>j. i < j \<and> j < n \<longrightarrow> \<not> activeStroke (log ! j))"
proof (induction n)
  case 0
  then show ?case by simp
next
  case (Suc n)
  show ?case
  proof (cases "activeStroke (log ! n)")
    case True
    with Suc.prems have "i = n" by (simp add: activeStroke_def)
    with True show ?thesis by auto
  next
    case False
    with Suc.prems have "scan log n = Some i" by (auto simp: activeStroke_def)
    from Suc.IH [OF this] False show ?thesis by (auto simp: less_Suc_eq)
  qed
qed

subsection \<open>Flag updates leave every other field alone\<close>

lemma map_flag_update:
  "(\<And>x b. f (x\<lparr>active := b\<rparr>) = f x) \<Longrightarrow> map f (log[i := (log ! i)\<lparr>active := b\<rparr>]) = map f log"
  by (simp add: map_update) (metis list_update_id map_update)

lemma setActive_length [simp]: "length (setActive t b log) = length log"
  by (simp add: setActive_def split: option.splits)

lemma setActive_map:
  "(\<And>x b. f (x\<lparr>active := b\<rparr>) = f x) \<Longrightarrow> map f (setActive t b log) = map f log"
  by (simp add: setActive_def map_flag_update split: option.splits)

lemma interpretOp_length [simp]: "length (fst (interpretOp room st)) = length (ops room)"
  by (simp add: interpretOp_def Let_def split: option.splits)

lemma interpretOp_map:
  "(\<And>x b. f (x\<lparr>active := b\<rparr>) = f x) \<Longrightarrow> map f (fst (interpretOp room st)) = map f (ops room)"
  by (simp add: interpretOp_def Let_def setActive_map map_flag_update split: option.splits)

lemma interpretOp_snd_fields [simp]:
  "seq (snd (interpretOp room st)) = seq st"
  "opID (snd (interpretOp room st)) = opID st"
  "type (snd (interpretOp room st)) = type st"
  "active (snd (interpretOp room st)) = active st"
  "clientId (snd (interpretOp room st)) = clientId st"
  "timestamp (snd (interpretOp room st)) = timestamp st"
  by (simp_all add: interpretOp_def Let_def split: option.splits)

lemma stamp_fields [simp]:
  "seq (stamp r n opRaw sid now) = n"
  "opID (stamp r n opRaw sid now) = mk_opID r n"
  "type (stamp r n opRaw sid now) = getProp (JObj opRaw) ''type''"
  "payload (stamp r n opRaw sid now) = rawPayload opRaw"
  "active (stamp r n opRaw sid now) = True"
  "clientId (stamp r n opRaw sid now) = sid"
  "timestamp (stamp r n opRaw sid now) = now"
  by (simp_all add: stamp_def)

subsection \<open>Operation identifiers are unambiguous\<close>

lemma digit_cases: "d < 10 \<Longrightarrow> d \<in> {0, 1, 2, 3, 4, 5, 6, 7, 8, 9::nat}"
  by auto

lemma digit_char_value: "d < 10 \<Longrightarrow> of_char (''0123456789'' ! d) = 48 + d"
  by (drule digit_cases) auto

lemma digit_char_not_colon: "d < 10 \<Longrightarrow> ''0123456789'' ! d \<noteq> CHR '':''"
  by (drule digit_cases) auto

lemma toString_no_colon: "CHR '':'' \<notin> set (toString n)"
proof (induction n rule: toString.induct)
  case (1 n)
  show ?case
  proof (cases "n < 10")
    case True
    then show ?thesis
      using digit_char_not_colon [of n] by (subst toString.simps) auto
  next
    case False
    have "n mod 10 < 10" by simp
    then have "''0123456789'' ! (n mod 10) \<noteq> CHR '':''" by (rule digit_char_not_colon)
    with False 1 show ?thesis by (subst toString.simps) auto
  qed
qed

lemma digitValue_snoc: "digitValue (s @ [c]) = 10 * digitValue s + (of_char c - 48)"
  by (simp add: digitValue_def)

lemma digitValue_toString: "digitValue (toString n) = n"
proof (induction n rule: toString.induct)
  case (1 n)
  show ?case
  proof (cases "n < 10")
    case True
    then show ?thesis
      using digit_char_value [of n] by (subst toString.simps) (simp add: digitValue_def)
  next
    case False
    have "n mod 10 < 10" by simp
    then have "of_char (''0123456789'' ! (n mod 10)) = 48 + n mod 10" by (rule digit_char_value)
    with False 1 show ?thesis
      by (subst toString.simps) (simp add: digitValue_snoc)
  qed
qed

lemma digitValue_zeros: "digitValue (replicate k (CHR ''0'') @ s) = digitValue s"
proof -
  have "foldl (\<lambda>a c. 10 * a + (of_char c - 48)) 0 (replicate k (CHR ''0'')) = (0::nat)"
    by (induction k) simp_all
  then show ?thesis by (simp add: digitValue_def)
qed

lemma digitValue_padStart: "digitValue (padStart (toString n)) = n"
  by (simp add: padStart_def digitValue_zeros digitValue_toString)

lemma padStart_no_colon: "CHR '':'' \<notin> set (padStart (toString n))"
  using toString_no_colon [of n] by (auto simp: padStart_def)

lemma split_at_last_colons:
  assumes "a @ ''::'' @ p = b @ ''::'' @ q" and "CHR '':'' \<notin> set p" and "CHR '':'' \<notin> set q"
  shows "a = b \<and> p = q"
proof -
  have "takeWhile (\<lambda>c. c \<noteq> CHR '':'') (rev (a @ ''::'' @ p)) = rev p"
    using assms(2) by (auto simp: takeWhile_tail)
  moreover have "takeWhile (\<lambda>c. c \<noteq> CHR '':'') (rev (b @ ''::'' @ q)) = rev q"
    using assms(3) by (auto simp: takeWhile_tail)
  ultimately have "p = q" using assms(1) by (metis rev_is_rev_conv)
  with assms(1) show ?thesis by simp
qed

lemma mk_opID_inj: "mk_opID r n = mk_opID r' m \<Longrightarrow> template r = template r' \<and> n = m"
proof -
  assume eq: "mk_opID r n = mk_opID r' m"
  then have "template r = template r' \<and> padStart (toString n) = padStart (toString m)"
    unfolding mk_opID_def by (rule split_at_last_colons) (rule padStart_no_colon)+
  then show ?thesis by (metis digitValue_padStart)
qed

subsection \<open>The invariant is kept\<close>

lemma set_update_subset: "set (AList.update k v al) \<subseteq> insert (k, v) (set al)"
  by (induction al) auto

lemma list_all_update: "list_all P al \<Longrightarrow> P (k, v) \<Longrightarrow> list_all P (AList.update k v al)"
  using set_update_subset [of k v al] by (auto simp: list_all_iff)

lemma wf_room_newRoom: "wf_room r newRoom"
  by (simp add: wf_room_def newRoom_def)

lemma wf_room_clients [simp]: "wf_room r (room\<lparr>clients := c\<rparr>) = wf_room r room"
  by (simp add: wf_room_def)

lemma wf_room_push:
  assumes wf: "wf_room r room"
    and len: "length log = length (ops room)"
    and seqs: "map seq log = map seq (ops room)"
    and ids: "map opID log = map opID (ops room)"
    and st_seq: "seq stamped = Suc (room_seq room)"
    and st_id: "opID stamped = mk_opID r (Suc (room_seq room))"
  shows "wf_room r (room\<lparr>ops := log @ [stamped], room_seq := Suc (room_seq room),
               opMap := AList.update (opID stamped) (length log) (opMap room)\<rparr>)"
proof -
  have cnt: "room_seq room = length (ops room)" using wf by (simp add: wf_room_def)
  have nth_id: "opID (log ! i) = opID (ops room ! i)" if "i < length (ops room)" for i
  proof -
    have "map opID log ! i = map opID (ops room) ! i" by (simp only: ids)
    then show ?thesis using that len by simp
  qed
  have old: "list_all (\<lambda>(t, i). i < length (log @ [stamped]) \<and> opID ((log @ [stamped]) ! i) = t) (opMap room)"
    unfolding list_all_iff
  proof
    fix e assume e: "e \<in> set (opMap room)"
    obtain t i where ti: "e = (t, i)" by (cases e)
    from wf e ti have "i < length (ops room) \<and> opID (ops room ! i) = t"
      by (auto simp: wf_room_def list_all_iff)
    then show "case e of (t, i) \<Rightarrow> i < length (log @ [stamped]) \<and> opID ((log @ [stamped]) ! i) = t"
      using nth_id [of i] len by (simp add: ti nth_append)
  qed
  have "list_all (\<lambda>(t, i). i < length (log @ [stamped]) \<and> opID ((log @ [stamped]) ! i) = t)
          (AList.update (opID stamped) (length log) (opMap room))"
    by (rule list_all_update [OF old]) simp
  moreover have "map seq (log @ [stamped]) = [1..<Suc (length (log @ [stamped]))]"
    using wf by (simp add: seqs st_seq cnt len wf_room_def)
  moreover have "map opID (log @ [stamped]) = map (mk_opID r) [1..<Suc (length (log @ [stamped]))]"
    using wf by (simp add: ids st_id cnt len wf_room_def)
  moreover have "map (map_of (AList.update (opID stamped) (length log) (opMap room)))
                   (map opID (log @ [stamped])) = map Some [0..<length (log @ [stamped])]"
  proof -
    have fresh: "t \<noteq> opID stamped" if "t \<in> set (map opID (ops room))" for t
    proof
      assume eq: "t = opID stamped"
      have ids0: "map opID (ops room) = map (mk_opID r) [1..<Suc (length (ops room))]"
        using wf unfolding wf_room_def by blast
      have "t \<in> set (map (mk_opID r) [1..<Suc (length (ops room))])"
        using that by (simp only: ids0)
      then obtain k where k: "k < Suc (length (ops room))" "t = mk_opID r k"
        by (auto simp del: upt_Suc)
      from k(2) eq have "mk_opID r k = mk_opID r (Suc (length (ops room)))"
        by (simp add: st_id cnt)
      then have "k = Suc (length (ops room))" by (auto dest: mk_opID_inj)
      with k(1) show False by simp
    qed
    define U where "U = AList.update (opID stamped) (length log) (opMap room)"
    have old_idx: "map (map_of (opMap room)) (map opID (ops room)) = map Some [0..<length (ops room)]"
      using wf unfolding wf_room_def by blast
    have kept: "map (map_of U) (map opID (ops room)) = map (map_of (opMap room)) (map opID (ops room))"
      by (rule map_cong [OF refl]) (simp add: U_def update_conv' fresh)
    have added: "map_of U (opID stamped) = Some (length log)"
      by (simp add: U_def update_conv')
    have "map (map_of U) (map opID (log @ [stamped]))
            = map (map_of U) (map opID (ops room)) @ [map_of U (opID stamped)]"
      by (simp only: map_append ids list.map)
    also have "\<dots> = map Some [0..<length (ops room)] @ [Some (length log)]"
      by (simp only: kept old_idx added)
    also have "\<dots> = map Some [0..<length (log @ [stamped])]"
      by (simp add: len)
    finally show ?thesis unfolding U_def .
  qed
  ultimately show ?thesis
    by (simp add: wf_room_def cnt len)
qed

lemma wf_room_appendRoom:
  assumes "wf_room r room"
  shows "wf_room r (fst (appendRoom r room opRaw sid now))"
  unfolding appendRoom_eq Let_def fst_conv
  by (rule wf_room_push [OF assms]) (simp_all add: interpretOp_map)

lemma wf_roomOf: "wf_manager rooms \<Longrightarrow> wf_room r (roomOf rooms r)"
  by (auto simp: wf_manager_def roomOf_def wf_room_newRoom list_all_iff split: option.splits dest: map_of_SomeD)

lemma wf_manager_update:
  "wf_manager rooms \<Longrightarrow> wf_room r room \<Longrightarrow> wf_manager (AList.update r room rooms)"
  by (simp add: wf_manager_def distinct_update list_all_update)

lemma wf_manager_ensure: "wf_manager rooms \<Longrightarrow> wf_manager (ensure rooms r)"
  by (simp add: ensure_def wf_manager_update wf_room_newRoom)

lemma wf_manager_appendOp: "wf_manager rooms \<Longrightarrow> wf_manager (fst (appendOp rooms r opRaw sid now))"
  unfolding appendOp_eq fst_conv
  by (intro wf_manager_update wf_manager_ensure wf_room_appendRoom wf_roomOf)

subsection \<open>The removal loop in closed form\<close>

lemma dropClient_absent: "\<not> hasClient sid room \<Longrightarrow> dropClient sid room = room"
  by (simp add: dropClient_def hasClient_def map_of_eq_None_iff delete_id)

lemma removeLoop_eq:
  "removeLoop rooms sid visited roomsLeft =
     (visited @ map (\<lambda>(r, room). (r, dropClient sid room)) rooms,
      roomsLeft @ map fst (filter (\<lambda>(r, room). hasClient sid room) rooms))"
proof (induction rooms arbitrary: visited roomsLeft)
  case Nil
  then show ?case by simp
next
  case (Cons e rooms)
  obtain r room where e: "e = (r, room)" by (cases e)
  show ?case
  proof (cases "hasClient sid room")
    case True
    then show ?thesis using Cons.IH by (simp add: e hasClient_def dropClient_def)
  next
    case False
    then show ?thesis using Cons.IH dropClient_absent [OF False] by (simp add: e hasClient_def)
  qed
qed

lemma removeClientBySocket_eq:
  "removeClientBySocket rooms sid =
     (map (\<lambda>(r, room). (r, dropClient sid room)) rooms,
      map fst (filter (\<lambda>(r, room). hasClient sid room) rooms))"
  by (simp add: removeClientBySocket_def removeLoop_eq)

lemma wf_manager_remove: "wf_manager rooms \<Longrightarrow> wf_manager (fst (removeClientBySocket rooms sid))"
  by (auto simp: removeClientBySocket_eq wf_manager_def list_all_iff dropClient_def comp_def case_prod_unfold)

lemma wf_manager_addClient: "wf_manager rooms \<Longrightarrow> wf_manager (fst (addClient rooms r sid u c))"
  by (simp add: addClient_def Let_def map_of_ensure wf_manager_update wf_manager_ensure wf_roomOf)

lemma wf_manager_exec: "wf_manager rooms \<Longrightarrow> wf_manager (exec rooms c)"
  by (cases c)
     (simp_all add: wf_manager_addClient wf_manager_remove wf_manager_appendOp
        getClients_def getHistory_def Let_def wf_manager_ensure)

lemma wf_manager_run_from: "wf_manager rooms \<Longrightarrow> wf_manager (run cs rooms)"
  unfolding run_def by (induction cs arbitrary: rooms) (simp_all add: wf_manager_exec)

lemma wf_manager_run: "wf_manager (run cs newManager)"
  by (rule wf_manager_run_from) (simp add: wf_manager_def newManager_def)

subsection \<open>What each call does to the log of a room\<close>

lemma logOf_ensure [simp]: "logOf (ensure rooms r) r' = logOf rooms r'"
  by (simp add: logOf_roomOf)

lemma roomOf_remove:
  "roomOf (fst (removeClientBySocket rooms sid)) r = dropClient sid (roomOf rooms r)"
  by (simp add: removeClientBySocket_eq roomOf_def map_of_map dropClient_def newRoom_def
      split: option.splits)

lemma roomOf_addClient:
  "roomOf (fst (addClient rooms r sid u c)) r' =
     (if r' = r then (roomOf rooms r)\<lparr>clients := AList.update sid (snd (addClient rooms r sid u c)) (clients (roomOf rooms r))\<rparr>
      else roomOf rooms r')"
  by (simp add: addClient_def Let_def roomOf_update map_of_ensure)

lemma appendOp_stamped:
  "snd (appendOp rooms r opRaw sid now) =
     snd (interpretOp (roomOf rooms r) (stamp r (Suc (room_seq (roomOf rooms r))) opRaw sid now))"
  by (simp add: appendOp_eq appendRoom_eq Let_def)

lemma logOf_appendOp:
  "logOf (fst (appendOp rooms r opRaw sid now)) r' =
     (if r' = r
      then fst (interpretOp (roomOf rooms r) (stamp r (Suc (room_seq (roomOf rooms r))) opRaw sid now))
           @ [snd (appendOp rooms r opRaw sid now)]
      else logOf rooms r')"
  by (simp add: logOf_roomOf roomOf_appendOp appendRoom_eq Let_def appendOp_stamped)

lemma logOf_exec_other:
  "\<forall>opRaw sid now. c \<noteq> AppendOp r opRaw sid now \<Longrightarrow> logOf (exec rooms c) r = logOf rooms r"
  by (cases c)
     (auto simp: logOf_roomOf roomOf_addClient roomOf_remove dropClient_def roomOf_appendOp
        getClients_def getHistory_def Let_def)



lemma logOf_newManager [simp]: "logOf newManager r = []"
  by (simp add: logOf_def newManager_def)

lemma wf_log_seq: "wf_manager rooms \<Longrightarrow> map seq (logOf rooms r) = [1..<Suc (length (logOf rooms r))]"
  using wf_roomOf [of rooms r] by (simp add: wf_room_def logOf_roomOf)



subsection \<open>Consequences of the invariant\<close>



lemma wf_seq_nth:
  assumes "wf_manager rooms" and "i < length (logOf rooms r)"
  shows "seq (logOf rooms r ! i) = Suc i"
proof -
  have "map seq (logOf rooms r) ! i = [1..<Suc (length (logOf rooms r))] ! i"
    using wf_log_seq [OF assms(1), of r] by simp
  with assms(2) show ?thesis by (simp del: upt_Suc)
qed

lemma wf_opID_nth:
  assumes "wf_manager rooms" and "i < length (logOf rooms r)"
  shows "opID (logOf rooms r ! i) = mk_opID r (Suc i)"
proof -
  have "map opID (logOf rooms r) = map (mk_opID r) [1..<Suc (length (logOf rooms r))]"
    using wf_roomOf [OF assms(1), of r] unfolding wf_room_def logOf_roomOf by blast
  then have "map opID (logOf rooms r) ! i = map (mk_opID r) [1..<Suc (length (logOf rooms r))] ! i"
    by simp
  with assms(2) show ?thesis by (simp del: upt_Suc)
qed

lemma mk_opID_truthy: "truthy (JStr (mk_opID r n))"
  by (simp add: mk_opID_def)

subsection \<open>The branches of the interpretation\<close>


lemma interpretOp_undo_scan:
  "type st = JStr ''undo'' \<Longrightarrow> \<not> truthy (targetOpID_of (payload st)) \<Longrightarrow>
   interpretOp room st =
     (case scan (ops room) (length (ops room)) of
        None \<Rightarrow> (ops room, st)
      | Some i \<Rightarrow> ((ops room)[i := (ops room ! i)\<lparr>active := False\<rparr>],
                   st\<lparr>payload := JObj [(''targetOpID'', JStr (opID (ops room ! i)))]\<rparr>))"
  by (simp add: interpretOp_def)



lemma scan_none_iff: "scan log (length log) = None \<longleftrightarrow> (\<forall>x\<in>set log. \<not> activeStroke x)"
  by (simp add: scan_None all_set_conv_all_nth)



lemma clients_appendOp: "clients (roomOf (fst (appendOp rooms r opRaw sid now)) r') = clients (roomOf rooms r')"
  by (simp add: roomOf_appendOp appendRoom_eq Let_def)

lemma appendOp_result:
  assumes "appendOp rooms r opRaw sid now = (rooms', stamped)"
  shows "stamped = snd (interpretOp (roomOf rooms r) (stamp r (Suc (room_seq (roomOf rooms r))) opRaw sid now))"
    and "logOf rooms' r =
           fst (interpretOp (roomOf rooms r) (stamp r (Suc (room_seq (roomOf rooms r))) opRaw sid now)) @ [stamped]"
    and "r' \<noteq> r \<Longrightarrow> logOf rooms' r' = logOf rooms r'"
    and "wf_manager rooms \<Longrightarrow> wf_manager rooms'"
    and "r' \<noteq> r \<Longrightarrow> map_of rooms' r' = map_of rooms r'"
proof -
  have rooms': "rooms' = fst (appendOp rooms r opRaw sid now)"
    and stamped: "stamped = snd (appendOp rooms r opRaw sid now)"
    using assms by simp_all
  show "stamped = snd (interpretOp (roomOf rooms r) (stamp r (Suc (room_seq (roomOf rooms r))) opRaw sid now))"
    by (simp add: stamped appendOp_stamped)
  show "logOf rooms' r =
          fst (interpretOp (roomOf rooms r) (stamp r (Suc (room_seq (roomOf rooms r))) opRaw sid now)) @ [stamped]"
    by (simp add: rooms' stamped logOf_appendOp)
  show "r' \<noteq> r \<Longrightarrow> logOf rooms' r' = logOf rooms r'"
    by (simp add: rooms' logOf_appendOp)
  show "wf_manager rooms \<Longrightarrow> wf_manager rooms'"
    by (simp add: rooms' wf_manager_appendOp)
  show "r' \<noteq> r \<Longrightarrow> map_of rooms' r' = map_of rooms r'"
    by (simp add: rooms' appendOp_eq update_conv' map_of_ensure)
qed

lemma appendOp_stamped_fields:
  "type (snd (appendOp rooms r opRaw sid now)) = getProp (JObj opRaw) ''type''"
  "opID (snd (appendOp rooms r opRaw sid now)) = mk_opID r (Suc (room_seq (roomOf rooms r)))"
  "active (snd (appendOp rooms r opRaw sid now)) = True"
  "clientId (snd (appendOp rooms r opRaw sid now)) = sid"
  "timestamp (snd (appendOp rooms r opRaw sid now)) = now"
  by (simp_all add: appendOp_stamped)

subsection \<open>Evaluating concrete call sequences\<close>

lemma toString_digit: "n < 10 \<Longrightarrow> toString n = [''0123456789'' ! n]"
  by (subst toString.simps) simp

lemma padStart_digit: "n < 10 \<Longrightarrow> padStart (toString n) = ''00000'' @ [''0123456789'' ! n]"
  by (simp add: padStart_def toString_digit eval_nat_numeral)

lemmas eval_defs =
  run_def newManager_def newRoom_def ensure_def appendOp_def appendRoom_def interpretOp_def
  stamp_def rawPayload_def targetOpID_of_def opMap_get_def setActive_def mk_opID_def
  padStart_digit logOf_def roomOf_def activeStroke_def Let_def

subsection \<open>What later calls keep\<close>

lemma run_Cons: "run (c # cs) rooms = run cs (exec rooms c)"
  by (simp add: run_def)

lemma log_grows_exec:
  assumes "\<And>x b. f (x\<lparr>active := b\<rparr>) = f x"
  shows "\<exists>ys. map f (logOf (exec rooms c) r) = map f (logOf rooms r) @ ys"
proof (cases "\<exists>opRaw sid now. c = AppendOp r opRaw sid now")
  case True
  then obtain opRaw sid now where c: "c = AppendOp r opRaw sid now" by blast
  have "map f (logOf (exec rooms c) r)
          = map f (logOf rooms r) @ [f (snd (appendOp rooms r opRaw sid now))]"
    by (simp add: c logOf_appendOp interpretOp_map [OF assms]) (simp add: logOf_roomOf)
  then show ?thesis by blast
next
  case False
  then have "logOf (exec rooms c) r = logOf rooms r" by (intro logOf_exec_other) auto
  then show ?thesis by simp
qed

lemma log_grows_run:
  assumes "\<And>x b. f (x\<lparr>active := b\<rparr>) = f x"
  shows "\<exists>ys. map f (logOf (run cs rooms) r) = map f (logOf rooms r) @ ys"
proof (induction cs arbitrary: rooms)
  case Nil
  then show ?case by (simp add: run_def)
next
  case (Cons c cs)
  from log_grows_exec [OF assms, of rooms c r]
  obtain ys where ys: "map f (logOf (exec rooms c) r) = map f (logOf rooms r) @ ys" by blast
  from Cons.IH [of "exec rooms c"]
  obtain zs where "map f (logOf (run cs (exec rooms c)) r) = map f (logOf (exec rooms c) r) @ zs" by blast
  with ys have "map f (logOf (run (c # cs) rooms) r) = map f (logOf rooms r) @ (ys @ zs)"
    by (simp add: run_Cons)
  then show ?case by blast
qed

lemma fields_kept_run:
  assumes "\<And>x b. f (x\<lparr>active := b\<rparr>) = f x"
  shows "map f (take (length (logOf rooms r)) (logOf (run cs rooms) r)) = map f (logOf rooms r)"
proof -
  from log_grows_run [OF assms, of cs rooms r]
  obtain ys where ys: "map f (logOf (run cs rooms) r) = map f (logOf rooms r) @ ys" by blast
  have "map f (take (length (logOf rooms r)) (logOf (run cs rooms) r))
          = take (length (map f (logOf rooms r))) (map f (logOf (run cs rooms) r))"
    by (simp add: take_map)
  also have "\<dots> = map f (logOf rooms r)"
    by (simp only: ys append_eq_conv_conj [symmetric] take_all_iff) simp
  finally show ?thesis .
qed





section \<open>Sequence numbers\<close>



section \<open>Undo without a target\<close>

lemma undo_scan_step:
  assumes ex: "\<exists>x\<in>set (logOf rooms r). activeStroke x"
    and ty: "getProp (JObj opRaw) ''type'' = JStr ''undo''"
    and nt: "\<not> truthy (targetOpID_of (rawPayload opRaw))"
    and ap: "appendOp rooms r opRaw sid now = (rooms', stamped)"
  shows "\<exists>i<length (logOf rooms r).
           activeStroke (logOf rooms r ! i) \<and>
           (\<forall>j. i < j \<and> j < length (logOf rooms r) \<longrightarrow> \<not> activeStroke (logOf rooms r ! j)) \<and>
           logOf rooms' r = (logOf rooms r)[i := (logOf rooms r ! i)\<lparr>active := False\<rparr>] @ [stamped] \<and>
           payload stamped = JObj [(''targetOpID'', JStr (opID (logOf rooms r ! i)))] \<and>
           type stamped = JStr ''undo''"
proof -
  define st where "st = stamp r (Suc (room_seq (roomOf rooms r))) opRaw sid now"
  define log where "log = logOf rooms r"
  have sty: "type st = JStr ''undo''" and snt: "\<not> truthy (targetOpID_of (payload st))"
    using ty nt by (simp_all add: st_def)
  from ex have "scan log (length log) \<noteq> None"
    by (simp add: scan_none_iff log_def)
  then obtain i where i: "scan log (length log) = Some i" by blast
  have int: "interpretOp (roomOf rooms r) st =
               (log[i := (log ! i)\<lparr>active := False\<rparr>],
                st\<lparr>payload := JObj [(''targetOpID'', JStr (opID (log ! i)))]\<rparr>)"
    using i by (simp add: interpretOp_undo_scan [OF sty snt] log_def logOf_roomOf)
  have stamped: "stamped = st\<lparr>payload := JObj [(''targetOpID'', JStr (opID (log ! i)))]\<rparr>"
    using appendOp_result(1) [OF ap] by (simp add: st_def [symmetric] int)
  have log': "logOf rooms' r = log[i := (log ! i)\<lparr>active := False\<rparr>] @ [stamped]"
    using appendOp_result(2) [OF ap] by (simp add: st_def [symmetric] int)
  from scan_Some [OF i] log' stamped sty show ?thesis
    unfolding log_def by auto
qed

text \<open>
  C2. In a reachable state, let the log of a room hold at least one active stroke, and
  call \<^verbatim>\<open>appendOp\<close> with an \<^verbatim>\<open>undo\<close> that gives no \<^verbatim>\<open>targetOpID\<close>. The call picks
  the active stroke with the highest \<open>seq\<close>, sets its \<open>active\<close> flag to false and changes
  nothing else in the log, and the undo it stores carries the payload
  \<^verbatim>\<open>{ targetOpID: <opID of that stroke> }\<close>. A second such undo, issued next, picks
  the stroke with the highest \<open>seq\<close> among the strokes that are still active, that is
  among the active strokes of the original log other than the first target.
\<close>

theorem undo_without_target_picks_latest_active_stroke:
  assumes wf: "wf_manager rooms"
    and ex: "\<exists>x\<in>set (logOf rooms r). activeStroke x"
    and ty1: "getProp (JObj opRaw1) ''type'' = JStr ''undo''"
    and nt1: "\<not> truthy (targetOpID_of (rawPayload opRaw1))"
    and ap1: "appendOp rooms r opRaw1 sid1 now1 = (rooms1, stamped1)"
    and ty2: "getProp (JObj opRaw2) ''type'' = JStr ''undo''"
    and nt2: "\<not> truthy (targetOpID_of (rawPayload opRaw2))"
    and ap2: "appendOp rooms1 r opRaw2 sid2 now2 = (rooms2, stamped2)"
  shows "\<exists>i<length (logOf rooms r).
           activeStroke (logOf rooms r ! i) \<and>
           (\<forall>j<length (logOf rooms r).
              activeStroke (logOf rooms r ! j) \<longrightarrow> seq (logOf rooms r ! j) \<le> seq (logOf rooms r ! i)) \<and>
           logOf rooms1 r = (logOf rooms r)[i := (logOf rooms r ! i)\<lparr>active := False\<rparr>] @ [stamped1] \<and>
           payload stamped1 = JObj [(''targetOpID'', JStr (opID (logOf rooms r ! i)))] \<and>
           ((\<exists>k<length (logOf rooms r). k \<noteq> i \<and> activeStroke (logOf rooms r ! k)) \<longrightarrow>
            (\<exists>k<length (logOf rooms r).
               k \<noteq> i \<and> activeStroke (logOf rooms r ! k) \<and>
               (\<forall>j<length (logOf rooms r).
                  j \<noteq> i \<and> activeStroke (logOf rooms r ! j) \<longrightarrow>
                  seq (logOf rooms r ! j) \<le> seq (logOf rooms r ! k)) \<and>
               logOf rooms2 r =
                 (logOf rooms r)[i := (logOf rooms r ! i)\<lparr>active := False\<rparr>,
                                 k := (logOf rooms r ! k)\<lparr>active := False\<rparr>] @ [stamped1, stamped2] \<and>
               payload stamped2 = JObj [(''targetOpID'', JStr (opID (logOf rooms r ! k)))]))"
proof -
  define log where "log = logOf rooms r"
  define log1 where "log1 = logOf rooms1 r"
  from undo_scan_step [OF ex ty1 nt1 ap1]
  obtain i where i: "i < length log" "activeStroke (log ! i)"
    and above_i: "\<And>j. i < j \<Longrightarrow> j < length log \<Longrightarrow> \<not> activeStroke (log ! j)"
    and l1: "log1 = log[i := (log ! i)\<lparr>active := False\<rparr>] @ [stamped1]"
    and p1: "payload stamped1 = JObj [(''targetOpID'', JStr (opID (log ! i)))]"
    and t1: "type stamped1 = JStr ''undo''"
    unfolding log_def log1_def by blast
  have sq: "seq (log ! j) = Suc j" if "j < length log" for j
    using wf_seq_nth [OF wf, of j r] that by (simp add: log_def)
  have max_i: "seq (log ! j) \<le> seq (log ! i)" if "j < length log" "activeStroke (log ! j)" for j
  proof -
    have "j \<le> i" using above_i [of j] that by (cases "i < j") auto
    then show ?thesis using that(1) i(1) by (simp add: sq)
  qed
  have len1: "length log1 = Suc (length log)" by (simp add: l1)
  have nth1: "log1 ! j = log ! j" if "j < length log" "j \<noteq> i" for j
    using that by (simp add: l1 nth_append)
  have off_i: "\<not> activeStroke (log1 ! i)"
    using i(1) by (simp add: l1 nth_append activeStroke_def)
  have off_last: "\<not> activeStroke (log1 ! length log)"
    using t1 by (simp add: l1 nth_append activeStroke_def)
  have second: "\<exists>k<length log. k \<noteq> i \<and> activeStroke (log ! k) \<and>
                  (\<forall>j<length log. j \<noteq> i \<and> activeStroke (log ! j) \<longrightarrow> seq (log ! j) \<le> seq (log ! k)) \<and>
                  logOf rooms2 r = log[i := (log ! i)\<lparr>active := False\<rparr>, k := (log ! k)\<lparr>active := False\<rparr>]
                                     @ [stamped1, stamped2] \<and>
                  payload stamped2 = JObj [(''targetOpID'', JStr (opID (log ! k)))]"
    if more: "\<exists>k<length log. k \<noteq> i \<and> activeStroke (log ! k)"
  proof -
    from more obtain k0 where k0: "k0 < length log" "k0 \<noteq> i" "activeStroke (log ! k0)" by blast
    have "k0 < length log1" using k0(1) by (simp add: len1)
    then have "log1 ! k0 \<in> set log1" by (rule nth_mem)
    moreover have "activeStroke (log1 ! k0)" using k0 by (simp add: nth1)
    ultimately
    have ex1: "\<exists>x\<in>set (logOf rooms1 r). activeStroke x"
      unfolding log1_def by blast
    from undo_scan_step [OF ex1 ty2 nt2 ap2]
    obtain k where k: "k < length log1" "activeStroke (log1 ! k)"
      and above_k: "\<And>j. k < j \<Longrightarrow> j < length log1 \<Longrightarrow> \<not> activeStroke (log1 ! j)"
      and l2: "logOf rooms2 r = log1[k := (log1 ! k)\<lparr>active := False\<rparr>] @ [stamped2]"
      and p2: "payload stamped2 = JObj [(''targetOpID'', JStr (opID (log1 ! k)))]"
      unfolding log1_def by blast
    have "k \<noteq> length log" using k(2) off_last by auto
    with k(1) have klt: "k < length log" by (simp add: len1)
    have kne: "k \<noteq> i" using k(2) off_i by auto
    have same: "log1 ! k = log ! k" using klt kne by (rule nth1)
    have max_k: "seq (log ! j) \<le> seq (log ! k)"
      if "j < length log" "j \<noteq> i" "activeStroke (log ! j)" for j
    proof -
      have "activeStroke (log1 ! j)" using that by (simp add: nth1)
      then have "j \<le> k" using above_k [of j] that(1) by (cases "k < j") (auto simp: len1)
      then show ?thesis using that(1) klt by (simp add: sq)
    qed
    have "log1[k := (log1 ! k)\<lparr>active := False\<rparr>]
            = log[i := (log ! i)\<lparr>active := False\<rparr>, k := (log ! k)\<lparr>active := False\<rparr>] @ [stamped1]"
      using klt by (simp add: same) (simp add: l1 list_update_append1)
    with l2 have "logOf rooms2 r = log[i := (log ! i)\<lparr>active := False\<rparr>, k := (log ! k)\<lparr>active := False\<rparr>]
                                     @ [stamped1, stamped2]"
      by simp
    with klt kne k(2) max_k p2 show ?thesis
      unfolding same by blast
  qed
  from i max_i l1 p1 second show ?thesis
    unfolding log_def log1_def by blast
qed

theorem undo_without_target_picks_latest_active_stroke_witness:
  "payload (snd (appendOp
       (run [AppendOp (RoomStr ''room1'') [(''type'', JStr ''stroke'')] ''s1'' 10,
             AppendOp (RoomStr ''room1'') [(''type'', JStr ''stroke'')] ''s2'' 11] newManager)
       (RoomStr ''room1'') [(''type'', JStr ''undo''), (''payload'', JObj [])] ''s1'' 12))
     = JObj [(''targetOpID'', JStr ''room1::000002'')] \<and>
   payload (snd (appendOp
       (fst (appendOp
          (run [AppendOp (RoomStr ''room1'') [(''type'', JStr ''stroke'')] ''s1'' 10,
                AppendOp (RoomStr ''room1'') [(''type'', JStr ''stroke'')] ''s2'' 11] newManager)
          (RoomStr ''room1'') [(''type'', JStr ''undo''), (''payload'', JObj [])] ''s1'' 12))
       (RoomStr ''room1'') [(''type'', JStr ''undo''), (''payload'', JObj [])] ''s1'' 13))
     = JObj [(''targetOpID'', JStr ''room1::000001'')] \<and>
   map active (take 2 (logOf
       (fst (appendOp
          (fst (appendOp
             (run [AppendOp (RoomStr ''room1'') [(''type'', JStr ''stroke'')] ''s1'' 10,
                   AppendOp (RoomStr ''room1'') [(''type'', JStr ''stroke'')] ''s2'' 11] newManager)
             (RoomStr ''room1'') [(''type'', JStr ''undo''), (''payload'', JObj [])] ''s1'' 12))
          (RoomStr ''room1'') [(''type'', JStr ''undo''), (''payload'', JObj [])] ''s1'' 13))
       (RoomStr ''room1'')))
     = [False, False]"
proof -
  define R where "R = run [AppendOp (RoomStr ''room1'') [(''type'', JStr ''stroke'')] ''s1'' 10,
                           AppendOp (RoomStr ''room1'') [(''type'', JStr ''stroke'')] ''s2'' 11] newManager"
  define U where "U = [(''type'', JStr ''undo''), (''payload'', JObj [])]"
  define r where "r = (RoomStr ''room1'')"
  define S1 where "S1 = \<lparr>seq = 1, opID = ''room1::000001'', clientId = ''s1'', type = JStr ''stroke'',
                          payload = JObj [(''type'', JStr ''stroke'')], timestamp = 10, active = True\<rparr>"
  define S2 where "S2 = \<lparr>seq = 2, opID = ''room1::000002'', clientId = ''s2'', type = JStr ''stroke'',
                          payload = JObj [(''type'', JStr ''stroke'')], timestamp = 11, active = True\<rparr>"
  have log: "logOf R r = [S1, S2]"
    by (simp add: R_def r_def S1_def S2_def eval_defs)
  have wf: "wf_manager R" unfolding R_def by (rule wf_manager_run)
  have ex: "\<exists>x\<in>set (logOf R r). activeStroke x"
    by (simp add: log S1_def activeStroke_def)
  have ty: "getProp (JObj U) ''type'' = JStr ''undo''" by (simp add: U_def)
  have nt: "\<not> truthy (targetOpID_of (rawPayload U))"
    by (simp add: U_def rawPayload_def targetOpID_of_def)
  define A1 where "A1 = appendOp R r U ''s1'' 12"
  define A2 where "A2 = appendOp (fst A1) r U ''s1'' 13"
  have ap1: "appendOp R r U ''s1'' 12 = (fst A1, snd A1)" by (simp add: A1_def)
  have ap2: "appendOp (fst A1) r U ''s1'' 13 = (fst A2, snd A2)" by (simp add: A2_def)
  from undo_without_target_picks_latest_active_stroke [OF wf ex ty nt ap1 ty nt ap2]
  obtain i where i: "i < length (logOf R r)"
    and max_i: "\<forall>j<length (logOf R r).
                  activeStroke (logOf R r ! j) \<longrightarrow> seq (logOf R r ! j) \<le> seq (logOf R r ! i)"
    and p1: "payload (snd A1) = JObj [(''targetOpID'', JStr (opID (logOf R r ! i)))]"
    and second: "(\<exists>k<length (logOf R r). k \<noteq> i \<and> activeStroke (logOf R r ! k)) \<longrightarrow>
            (\<exists>k<length (logOf R r).
               k \<noteq> i \<and> activeStroke (logOf R r ! k) \<and>
               (\<forall>j<length (logOf R r).
                  j \<noteq> i \<and> activeStroke (logOf R r ! j) \<longrightarrow> seq (logOf R r ! j) \<le> seq (logOf R r ! k)) \<and>
               logOf (fst A2) r =
                 (logOf R r)[i := (logOf R r ! i)\<lparr>active := False\<rparr>,
                             k := (logOf R r ! k)\<lparr>active := False\<rparr>] @ [snd A1, snd A2] \<and>
               payload (snd A2) = JObj [(''targetOpID'', JStr (opID (logOf R r ! k)))])"
    by blast
  have i2: "i < 2" using i by (simp add: log)
  have "1 < length (logOf R r)" "activeStroke (logOf R r ! 1)"
    by (simp_all add: log S2_def activeStroke_def)
  with max_i have "seq (logOf R r ! 1) \<le> seq (logOf R r ! i)" by blast
  then have "2 \<le> seq ([S1, S2] ! i)" by (simp add: log S2_def)
  with i2 have i1: "i = 1" by (cases i) (simp_all add: S1_def)
  have "0 < length (logOf R r) \<and> 0 \<noteq> i \<and> activeStroke (logOf R r ! 0)"
    by (simp add: log i1 S1_def activeStroke_def)
  then have "\<exists>k<length (logOf R r). k \<noteq> i \<and> activeStroke (logOf R r ! k)" by blast
  with second obtain k where k: "k < length (logOf R r)" "k \<noteq> i"
    and l2: "logOf (fst A2) r =
                 (logOf R r)[i := (logOf R r ! i)\<lparr>active := False\<rparr>,
                             k := (logOf R r ! k)\<lparr>active := False\<rparr>] @ [snd A1, snd A2]"
    and p2: "payload (snd A2) = JObj [(''targetOpID'', JStr (opID (logOf R r ! k)))]"
    by blast
  from k i1 have k0: "k = 0" by (simp add: log)
  have "payload (snd (appendOp R r U ''s1'' 12)) = JObj [(''targetOpID'', JStr ''room1::000002'')] \<and>
        payload (snd (appendOp (fst (appendOp R r U ''s1'' 12)) r U ''s1'' 13))
          = JObj [(''targetOpID'', JStr ''room1::000001'')] \<and>
        map active (take 2 (logOf (fst (appendOp (fst (appendOp R r U ''s1'' 12)) r U ''s1'' 13)) r))
          = [False, False]"
    using p1 p2 l2 unfolding A2_def A1_def by (simp add: i1 k0 log S1_def S2_def)
  then show ?thesis
    unfolding R_def U_def r_def .
qed

section \<open>What one call changes in the log\<close>







section \<open>The target stored with an undo or redo\<close>

text \<open>
  The claim C4 says that every stored undo or redo has a payload with a resolved
  \<^verbatim>\<open>targetOpID\<close>. The scan fills the target in only when it finds an active stroke:
  an undo sent as \<^verbatim>\<open>{ type: 'undo', payload: {} }\<close> to a room without strokes is
  stored with the empty payload it came with.
\<close>

theorem undo_stored_without_target_counterexample:
  "map type (logOf (run [AppendOp (RoomStr ''room1'') [(''type'', JStr ''undo''), (''payload'', JObj [])] ''s1'' 10]
                      newManager) (RoomStr ''room1'')) = [JStr ''undo''] \<and>
   map payload (logOf (run [AppendOp (RoomStr ''room1'') [(''type'', JStr ''undo''), (''payload'', JObj [])] ''s1'' 10]
                         newManager) (RoomStr ''room1'')) = [JObj []] \<and>
   getProp (JObj []) ''targetOpID'' = JUndefined"
  by (simp add: eval_defs)

lemma interpretOp_payload_cases:
  "payload (snd (interpretOp room st)) =
     (if type st = JStr ''undo'' \<and> \<not> truthy (targetOpID_of (payload st)) then
        (case scan (ops room) (length (ops room)) of
           None \<Rightarrow> payload st
         | Some i \<Rightarrow> JObj [(''targetOpID'', JStr (opID (ops room ! i)))])
      else payload st)"
  by (simp add: interpretOp_def Let_def split: option.splits)

text \<open>
  C4, as the code has it. Take an \<^verbatim>\<open>appendOp\<close> in a reachable state, of any type;
  the operation it returns is the one it stores, as the last entry of the log, and the
  payloads of the earlier entries stay as they are. If the request carries a \<^verbatim>\<open>targetOpID\<close>, the
  payload is stored as received, whether or not the target exists. An undo without
  \<^verbatim>\<open>targetOpID\<close> is stored with the payload \<^verbatim>\<open>{ targetOpID: <opID> }\<close> of an
  active stroke of the log when there is one, and with the payload as received when there
  is none; a redo without \<^verbatim>\<open>targetOpID\<close> is always stored with the payload as
  received. So a stored undo or redo has a \<^verbatim>\<open>targetOpID\<close> exactly when the request
  had one or, for an undo, when an active stroke was there to fill it in. No later
  sequence of calls changes the payload of a stored operation.
\<close>

theorem stored_target_of_undo_and_redo:
  assumes wf: "wf_manager rooms"
    and ap: "appendOp rooms r opRaw sid now = (rooms', stamped)"
  shows "logOf rooms' r = butlast (logOf rooms' r) @ [stamped] \<and>
         map payload (butlast (logOf rooms' r)) = map payload (logOf rooms r) \<and>
         (truthy (targetOpID_of (rawPayload opRaw)) \<longrightarrow> payload stamped = rawPayload opRaw) \<and>
         (\<not> truthy (targetOpID_of (rawPayload opRaw)) \<and> type stamped = JStr ''undo'' \<and>
            (\<exists>x\<in>set (logOf rooms r). activeStroke x) \<longrightarrow>
            (\<exists>x\<in>set (logOf rooms r).
               activeStroke x \<and> payload stamped = JObj [(''targetOpID'', JStr (opID x))])) \<and>
         (\<not> truthy (targetOpID_of (rawPayload opRaw)) \<and> type stamped = JStr ''undo'' \<and>
            (\<forall>x\<in>set (logOf rooms r). \<not> activeStroke x) \<longrightarrow> payload stamped = rawPayload opRaw) \<and>
         (\<not> truthy (targetOpID_of (rawPayload opRaw)) \<and> type stamped = JStr ''redo'' \<longrightarrow>
            payload stamped = rawPayload opRaw) \<and>
         (truthy (targetOpID_of (payload stamped)) \<longleftrightarrow>
            truthy (targetOpID_of (rawPayload opRaw)) \<or>
            (type stamped = JStr ''undo'' \<and> (\<exists>x\<in>set (logOf rooms r). activeStroke x))) \<and>
         (\<forall>cs. map payload (take (length (logOf rooms' r)) (logOf (run cs rooms') r))
                 = map payload (logOf rooms' r))"
proof -
  define st where "st = stamp r (Suc (room_seq (roomOf rooms r))) opRaw sid now"
  define log where "log = logOf rooms r"
  define tgt where "tgt = targetOpID_of (rawPayload opRaw)"
  have stamped: "stamped = snd (interpretOp (roomOf rooms r) st)"
    using appendOp_result(1) [OF ap] by (simp add: st_def)
  have log': "logOf rooms' r = fst (interpretOp (roomOf rooms r) st) @ [stamped]"
    using appendOp_result(2) [OF ap] by (simp add: st_def)
  have sty: "type stamped = type st" by (simp add: stamped)
  have pl: "payload st = rawPayload opRaw" by (simp add: st_def)
  have 1: "logOf rooms' r = butlast (logOf rooms' r) @ [stamped]"
    by (simp add: log')
  have 2: "map payload (butlast (logOf rooms' r)) = map payload log"
  proof -
    have "butlast (logOf rooms' r) = fst (interpretOp (roomOf rooms r) st)"
      by (simp add: log')
    then show ?thesis
      by (simp add: interpretOp_map) (simp add: log_def logOf_roomOf)
  qed
  have 3: "payload stamped = rawPayload opRaw" if "truthy tgt"
    using that by (simp add: stamped interpretOp_payload_cases pl tgt_def)
  have 4: "\<exists>x\<in>set log. activeStroke x \<and> payload stamped = JObj [(''targetOpID'', JStr (opID x))]"
    if "\<not> truthy tgt" "type stamped = JStr ''undo''" "\<exists>x\<in>set log. activeStroke x"
  proof -
    from that(3) have "scan log (length log) \<noteq> None" by (simp add: scan_none_iff)
    then obtain i where i: "scan log (length log) = Some i" by blast
    from scan_Some [OF i] have "log ! i \<in> set log" "activeStroke (log ! i)" by simp_all
    moreover have "payload stamped = JObj [(''targetOpID'', JStr (opID (log ! i)))]"
      using that(1,2) i
      by (simp add: stamped interpretOp_payload_cases pl tgt_def log_def logOf_roomOf)
    ultimately show ?thesis by blast
  qed
  have 5: "payload stamped = rawPayload opRaw"
    if "\<not> truthy tgt" "type stamped = JStr ''undo''" "\<forall>x\<in>set log. \<not> activeStroke x"
  proof -
    from that(3) have "scan log (length log) = None" by (simp add: scan_none_iff)
    then show ?thesis
      by (simp add: stamped interpretOp_payload_cases pl log_def logOf_roomOf)
  qed
  have other: "payload stamped = rawPayload opRaw" if "type stamped \<noteq> JStr ''undo''"
    using that by (simp add: stamped interpretOp_payload_cases pl)
  have 6: "payload stamped = rawPayload opRaw" if "\<not> truthy tgt" "type stamped = JStr ''redo''"
    using that(2) by (simp add: other)
  have filled: "truthy (targetOpID_of (JObj [(''targetOpID'', JStr (opID x))]))" if "x \<in> set log" for x
  proof -
    from that obtain i where "i < length log" "x = log ! i" by (auto simp: in_set_conv_nth)
    then have "opID x = mk_opID r (Suc i)" using wf_opID_nth [OF wf, of i r] by (simp add: log_def)
    then show ?thesis using mk_opID_truthy [of r "Suc i"] by (simp add: targetOpID_of_def)
  qed
  have 7: "truthy (targetOpID_of (payload stamped)) \<longleftrightarrow>
             truthy tgt \<or> (type stamped = JStr ''undo'' \<and> (\<exists>x\<in>set log. activeStroke x))"
  proof (cases "truthy tgt")
    case True
    then show ?thesis using 3 by (simp add: tgt_def)
  next
    case False
    note nt = this
    show ?thesis
    proof (cases "type stamped = JStr ''undo''")
      case True
      show ?thesis
      proof (cases "\<exists>x\<in>set log. activeStroke x")
        case True
        with 4 [OF nt \<open>type stamped = JStr ''undo''\<close>] filled show ?thesis
          using \<open>type stamped = JStr ''undo''\<close> by auto
      next
        case False
        with 5 [OF nt \<open>type stamped = JStr ''undo''\<close>] nt show ?thesis by (simp add: tgt_def)
      qed
    next
      case False
      from other [OF this] nt False show ?thesis by (simp add: tgt_def)
    qed
  qed
  have 8: "map payload (take (length (logOf rooms' r)) (logOf (run cs rooms') r))
             = map payload (logOf rooms' r)" for cs
    by (rule fields_kept_run) simp
  from 1 2 3 4 5 6 7 8 show ?thesis
    unfolding log_def tgt_def by blast
qed

theorem stored_target_of_undo_and_redo_witness:
  "payload (snd (appendOp (run [AppendOp (RoomStr ''room1'') [(''type'', JStr ''stroke'')] ''s1'' 10] newManager)
                   (RoomStr ''room1'') [(''type'', JStr ''undo''), (''payload'', JObj [])] ''s2'' 11))
     = JObj [(''targetOpID'', JStr ''room1::000001'')] \<and>
   payload (snd (appendOp newManager (RoomStr ''room1'') [(''type'', JStr ''redo''), (''payload'', JObj [])] ''s2'' 11))
     = JObj []"
proof -
  define R where "R = run [AppendOp (RoomStr ''room1'') [(''type'', JStr ''stroke'')] ''s1'' 10] newManager"
  define U where "U = [(''type'', JStr ''undo''), (''payload'', JObj [])]"
  define D where "D = [(''type'', JStr ''redo''), (''payload'', JObj [])]"
  define S1 where "S1 = \<lparr>seq = 1, opID = ''room1::000001'', clientId = ''s1'', type = JStr ''stroke'',
                          payload = JObj [(''type'', JStr ''stroke'')], timestamp = 10, active = True\<rparr>"
  have log: "logOf R (RoomStr ''room1'') = [S1]"
    by (simp add: R_def S1_def eval_defs)
  have wf: "wf_manager R" unfolding R_def by (rule wf_manager_run)
  have ntU: "\<not> truthy (targetOpID_of (rawPayload U))"
    by (simp add: U_def rawPayload_def targetOpID_of_def)
  from stored_target_of_undo_and_redo [OF wf surjective_pairing]
  have "\<not> truthy (targetOpID_of (rawPayload U)) \<and> type (snd (appendOp R (RoomStr ''room1'') U ''s2'' 11)) = JStr ''undo'' \<and>
          (\<exists>x\<in>set (logOf R (RoomStr ''room1'')). activeStroke x) \<longrightarrow>
        (\<exists>x\<in>set (logOf R (RoomStr ''room1'')).
            activeStroke x \<and> payload (snd (appendOp R (RoomStr ''room1'') U ''s2'' 11)) = JObj [(''targetOpID'', JStr (opID x))])"
    by blast
  then have a: "payload (snd (appendOp R (RoomStr ''room1'') U ''s2'' 11)) = JObj [(''targetOpID'', JStr ''room1::000001'')]"
    using ntU by (simp add: log appendOp_stamped_fields U_def S1_def activeStroke_def)
  have wf0: "wf_manager newManager" by (simp add: wf_manager_def newManager_def)
  from stored_target_of_undo_and_redo [OF wf0 surjective_pairing]
  have "\<not> truthy (targetOpID_of (rawPayload D)) \<and> type (snd (appendOp newManager (RoomStr ''room1'') D ''s2'' 11)) = JStr ''redo''
          \<longrightarrow> payload (snd (appendOp newManager (RoomStr ''room1'') D ''s2'' 11)) = rawPayload D"
    by blast
  then have b: "payload (snd (appendOp newManager (RoomStr ''room1'') D ''s2'' 11)) = JObj []"
    by (simp add: appendOp_stamped_fields D_def rawPayload_def targetOpID_of_def)
  from a b show ?thesis unfolding R_def U_def D_def by simp
qed

section \<open>Operation types in the log\<close>




section \<open>Undo that finds nothing to undo\<close>



section \<open>Redo\<close>



section \<open>History\<close>

lemma getHistory_eq:
  "getHistory rooms r limit_arg =
     (ensure rooms r,
      drop (nat (max 0 (int (length (logOf rooms r)) - (case limit_arg of None \<Rightarrow> 500 | Some l \<Rightarrow> l))))
        (logOf rooms r))"
  by (simp add: getHistory_def Let_def map_of_ensure logOf_roomOf)

text \<open>
  C8. \<^verbatim>\<open>getHistory(roomId, limit)\<close>, with \<open>limit\<close> taken as 500 when omitted, returns
  the last \<open>min limit (length log)\<close> operations of the room's log as the log holds them
  when the call is made, in log order: entry \<open>j\<close> of the result is entry
  \<open>length log - length result + j\<close> of the current log, so a flag that a later undo
  changed on an earlier entry is returned as changed. The call leaves every log as it
  is. (A negative limit returns the empty list, which \<open>nat limit = 0\<close> covers.)
\<close>

theorem getHistory_returns_last_entries:
  assumes "getHistory rooms r limit_arg = (rooms', h)"
    and "limit = (case limit_arg of None \<Rightarrow> 500 | Some l \<Rightarrow> l)"
  shows "h = drop (length (logOf rooms r) - min (nat limit) (length (logOf rooms r))) (logOf rooms r) \<and>
         length h = min (nat limit) (length (logOf rooms r)) \<and>
         (\<forall>j<length h. h ! j = logOf rooms r ! (length (logOf rooms r) - length h + j)) \<and>
         (\<forall>r'. logOf rooms' r' = logOf rooms r')"
proof -
  have h: "h = drop (nat (max 0 (int (length (logOf rooms r)) - limit))) (logOf rooms r)"
    and rooms': "rooms' = ensure rooms r"
    using assms by (simp_all add: getHistory_eq)
  have 1: "h = drop (length (logOf rooms r) - min (nat limit) (length (logOf rooms r))) (logOf rooms r)"
  proof (cases "0 \<le> limit")
    case True
    then have "nat (max 0 (int (length (logOf rooms r)) - limit))
                 = length (logOf rooms r) - min (nat limit) (length (logOf rooms r))"
      by auto
    then show ?thesis by (simp only: h)
  next
    case False
    then have "length (logOf rooms r) \<le> nat (max 0 (int (length (logOf rooms r)) - limit))"
      by auto
    then have "h = []" by (simp only: h drop_all)
    with False show ?thesis by simp
  qed
  then have 2: "length h = min (nat limit) (length (logOf rooms r))"
    by auto
  have 3: "h ! j = logOf rooms r ! (length (logOf rooms r) - length h + j)" if "j < length h" for j
    using that by (subst 1) (simp add: 2 min_def split: if_splits)
  show ?thesis using 1 2 3 by (simp add: rooms')
qed

theorem getHistory_returns_last_entries_witness:
  "map seq (snd (getHistory
       (run [AppendOp (RoomStr ''room1'') [(''type'', JStr ''stroke'')] ''s1'' 10,
             AppendOp (RoomStr ''room1'') [(''type'', JStr ''stroke'')] ''s1'' 11,
             AppendOp (RoomStr ''room1'') [(''type'', JStr ''undo'')] ''s2'' 12] newManager)
       (RoomStr ''room1'') (Some 2))) = [2, 3] \<and>
   map active (snd (getHistory
       (run [AppendOp (RoomStr ''room1'') [(''type'', JStr ''stroke'')] ''s1'' 10,
             AppendOp (RoomStr ''room1'') [(''type'', JStr ''stroke'')] ''s1'' 11,
             AppendOp (RoomStr ''room1'') [(''type'', JStr ''undo'')] ''s2'' 12] newManager)
       (RoomStr ''room1'') (Some 2))) = [False, True]"
proof -
  define cs where "cs = [AppendOp (RoomStr ''room1'') [(''type'', JStr ''stroke'')] ''s1'' 10,
                         AppendOp (RoomStr ''room1'') [(''type'', JStr ''stroke'')] ''s1'' 11,
                         AppendOp (RoomStr ''room1'') [(''type'', JStr ''undo'')] ''s2'' 12]"
  have sq: "map seq (logOf (run cs newManager) (RoomStr ''room1'')) = [1, 2, 3]"
    and act: "map active (logOf (run cs newManager) (RoomStr ''room1'')) = [True, False, True]"
    by (simp_all add: cs_def eval_defs)
  have len: "length (logOf (run cs newManager) (RoomStr ''room1'')) = 3"
    using arg_cong [OF sq, of length] by simp
  from getHistory_returns_last_entries [OF surjective_pairing refl, of "run cs newManager" "(RoomStr ''room1'')" "Some 2"]
  have "snd (getHistory (run cs newManager) (RoomStr ''room1'') (Some 2))
          = drop 1 (logOf (run cs newManager) (RoomStr ''room1''))"
    by (simp add: len)
  then have "map seq (snd (getHistory (run cs newManager) (RoomStr ''room1'') (Some 2))) = drop 1 [1, 2, 3]"
    and "map active (snd (getHistory (run cs newManager) (RoomStr ''room1'') (Some 2))) = drop 1 [True, False, True]"
    by (simp_all only: drop_map sq [symmetric] act [symmetric])
  then show ?thesis
    unfolding cs_def [symmetric] by simp
qed

section \<open>Removing a client\<close>

lemma no_member_remove_id:
  "(\<And>e. e \<in> set rooms \<Longrightarrow> \<not> hasClient sid (snd e)) \<Longrightarrow>
   map (\<lambda>(r, room). (r, dropClient sid room)) rooms = rooms"
  by (rule map_idI) (auto simp: dropClient_absent)

text \<open>
  C9. \<^verbatim>\<open>removeClientBySocket(socketId)\<close> keeps the rooms and their order and changes in
  each room nothing but \<open>clients\<close>, from which it deletes the entry of \<open>socketId\<close> and
  no other: afterwards no room contains the client, and every log, counter and \<open>opMap\<close>
  is as before. The list it returns holds exactly the ids of the rooms that contained
  the client, in the order of the rooms map. For a client that is in no room the manager
  is unchanged and the list is empty.
\<close>

theorem removeClientBySocket_removes_from_every_room:
  assumes "removeClientBySocket rooms sid = (rooms', roomsLeft)"
  shows "rooms' = map (\<lambda>(r, room). (r, room\<lparr>clients := filter (\<lambda>(k, info). sid \<noteq> k) (clients room)\<rparr>)) rooms \<and>
         (\<forall>e\<in>set rooms'. map_of (clients (snd e)) sid = None) \<and>
         roomsLeft = map fst (filter (\<lambda>(r, room). map_of (clients room) sid \<noteq> None) rooms) \<and>
         ((\<forall>e\<in>set rooms. map_of (clients (snd e)) sid = None) \<longrightarrow> rooms' = rooms \<and> roomsLeft = [])"
proof -
  have rooms': "rooms' = map (\<lambda>(r, room). (r, dropClient sid room)) rooms"
    and left: "roomsLeft = map fst (filter (\<lambda>(r, room). hasClient sid room) rooms)"
    using assms by (simp_all add: removeClientBySocket_eq)
  have 1: "rooms' = map (\<lambda>(r, room). (r, room\<lparr>clients := filter (\<lambda>(k, info). sid \<noteq> k) (clients room)\<rparr>)) rooms"
    by (simp add: rooms' dropClient_def AList.delete_eq)
  have 2: "map_of (clients (snd e)) sid = None" if "e \<in> set rooms'" for e
    using that by (auto simp: rooms' dropClient_def delete_conv')
  have 3: "roomsLeft = map fst (filter (\<lambda>(r, room). map_of (clients room) sid \<noteq> None) rooms)"
    by (simp add: left hasClient_def)
  have 4: "rooms' = rooms \<and> roomsLeft = []" if "\<forall>e\<in>set rooms. map_of (clients (snd e)) sid = None"
  proof -
    from that have none: "\<not> hasClient sid (snd e)" if "e \<in> set rooms" for e
      using that by (simp add: hasClient_def)
    then have "rooms' = rooms" unfolding rooms' by (rule no_member_remove_id)
    moreover from none have "filter (\<lambda>(r, room). hasClient sid room) rooms = []"
      by (auto simp: filter_empty_conv)
    ultimately show ?thesis by (simp add: left)
  qed
  from 1 2 3 4 show ?thesis by blast
qed

theorem removeClientBySocket_removes_from_every_room_witness:
  "snd (removeClientBySocket
     (run [AddClient (RoomStr ''a'') ''s1'' (Some ''Ann'') None,
           AddClient (RoomStr ''b'') ''s2'' None None,
           AddClient (RoomStr ''c'') ''s1'' None (Some ''#fff''),
           AppendOp (RoomStr ''a'') [(''type'', JStr ''stroke'')] ''s1'' 10] newManager) ''s1'')
     = [(RoomStr ''a''), (RoomStr ''c'')] \<and>
   map (\<lambda>(r, room). (r, map fst (clients room), length (ops room)))
     (fst (removeClientBySocket
       (run [AddClient (RoomStr ''a'') ''s1'' (Some ''Ann'') None,
             AddClient (RoomStr ''b'') ''s2'' None None,
             AddClient (RoomStr ''c'') ''s1'' None (Some ''#fff''),
             AppendOp (RoomStr ''a'') [(''type'', JStr ''stroke'')] ''s1'' 10] newManager) ''s1''))
     = [((RoomStr ''a''), [], 1), ((RoomStr ''b''), [''s2''], 0), ((RoomStr ''c''), [], 0)]"
proof -
  define cs where "cs = [AddClient (RoomStr ''a'') ''s1'' (Some ''Ann'') None,
           AddClient (RoomStr ''b'') ''s2'' None None,
           AddClient (RoomStr ''c'') ''s1'' None (Some ''#fff''),
           AppendOp (RoomStr ''a'') [(''type'', JStr ''stroke'')] ''s1'' 10]"
  have R: "run cs newManager =
      [((RoomStr ''a''),
        \<lparr>clients = [(''s1'', \<lparr>info_clientId = ''s1'', username = ''Ann'', color = ''#000''\<rparr>)],
         ops = [\<lparr>seq = 1, opID = ''a::000001'', clientId = ''s1'', type = JStr ''stroke'',
                 payload = JObj [(''type'', JStr ''stroke'')], timestamp = 10, active = True\<rparr>],
         room_seq = 1, opMap = [(''a::000001'', 0)]\<rparr>),
       ((RoomStr ''b''),
        \<lparr>clients = [(''s2'', \<lparr>info_clientId = ''s2'', username = ''Anon'', color = ''#000''\<rparr>)],
         ops = [], room_seq = 0, opMap = []\<rparr>),
       ((RoomStr ''c''),
        \<lparr>clients = [(''s1'', \<lparr>info_clientId = ''s1'', username = ''Anon'', color = ''#fff''\<rparr>)],
         ops = [], room_seq = 0, opMap = []\<rparr>)]"
    by (simp add: cs_def eval_defs addClient_def)
  from removeClientBySocket_removes_from_every_room [OF surjective_pairing, of "run cs newManager" "''s1''"]
  have "fst (removeClientBySocket (run cs newManager) ''s1'')
          = map (\<lambda>(r, room). (r, room\<lparr>clients := filter (\<lambda>(k, info). ''s1'' \<noteq> k) (clients room)\<rparr>))
              (run cs newManager)"
    and "snd (removeClientBySocket (run cs newManager) ''s1'')
          = map fst (filter (\<lambda>(r, room). map_of (clients room) ''s1'' \<noteq> None) (run cs newManager))"
    by simp_all
  then show ?thesis
    unfolding cs_def [symmetric] by (simp add: R)
qed

section \<open>Targets from other rooms\<close>







end
